theory Spec2Isabelle
  imports Complex_Main "HOL-Library.AList" "HOL-Library.Char_ord" "HOL-Library.List_Lexorder"
    "HOL-Library.Multiset" "HOL-Library.Sublist"
begin

section \<open>Build health report: the embedded program\<close>

text \<open>
  The development follows \<^verbatim>\<open>build_health.py\<close>: the outcome extractor
  (\<^verbatim>\<open>read_build_event_protocol\<close>), the package key (\<^verbatim>\<open>get_package\<close>), the forest
  of packages (\<^verbatim>\<open>build_package_forest\<close>), the aggregation (\<^verbatim>\<open>compute_counts\<close>), the
  report (\<^verbatim>\<open>print_forest\<close>) and the part of the script that runs after the build.

  Conventions of the embedding.
  \<^item> A Python exception is a value of \<open>error\<close>; a function that may raise returns
    \<open>error + 'a\<close>, with \<open>Inl\<close> the exception.
  \<^item> A \<^verbatim>\<open>dict\<close> is an association list with distinct keys in insertion order; an
    assignment to a key that is present keeps its position (\<open>AList.update\<close>).
  \<^item> A label is a \<open>string\<close>, a list of bytes (UTF-8). The two characters the program
    looks for, the colon and the line feed, are ASCII, and the byte order of UTF-8 is the
    order of code points, so prefixes, \<^verbatim>\<open>startswith\<close> and \<^verbatim>\<open>sorted\<close> agree with
    Python's.
  \<^item> The outcome of a target is what the dictionary holds: \<^verbatim>\<open>None\<close> (pending) or a
    Python string, so \<open>string option\<close>.
  \<^item> A float is an exact rational. The quotients of the program are quotients of two
    counts, and the comparison \<^verbatim>\<open>fraction < 1\<close> is the comparison of the counts for every
    count below \<open>2 ^ 53\<close>.
  \<^item> What the program prints is the list of its lines; a printing function returns the
    lines printed so far together with the exception that stopped it, if any.
\<close>

subsection \<open>Errors and printed output\<close>

datatype error =
    RuntimeError string
  | KeyError string
  | ZeroDivisionError

type_synonym printed = "string list \<times> error option"

text \<open>Sequencing of two printing actions: the second runs only if the first did not raise.\<close>

fun then_print :: "printed \<Rightarrow> printed \<Rightarrow> printed" where
  "then_print (ls, Some e) p = (ls, Some e)"
| "then_print (ls, None) (ls', e') = (ls @ ls', e')"

subsection \<open>Build events\<close>

text \<open>
  One line of the event file, decoded. \<open>id_keys\<close> are the keys of the \<^verbatim>\<open>id\<close> object in
  their order, each with the \<^verbatim>\<open>label\<close> of the object below it (\<open>None\<close> if that object
  has no label). \<open>aborted\<close> says whether the key \<^verbatim>\<open>aborted\<close> is present, \<open>completed\<close> is
  the \<^verbatim>\<open>completed\<close> object if present. In that object \<open>success\<close> is \<open>Some b\<close> when
  the key \<^verbatim>\<open>success\<close> is present and \<open>b\<close> says whether its value equals \<^verbatim>\<open>True\<close>;
  \<open>failureDetail\<close> is \<open>Some m\<close> when the key is present, \<open>m\<close> being its \<^verbatim>\<open>message\<close>
  if it has one. \<open>completed_str\<close> and \<open>event_str\<close> are what \<^verbatim>\<open>str\<close> returns on the
  \<^verbatim>\<open>completed\<close> object and on the whole record.
\<close>

record completed_result =
  success :: "bool option"
  failureDetail :: "string option option"
  completed_str :: string

record bep_event =
  id_keys :: "(string \<times> string option) list"
  aborted :: bool
  completed :: "completed_result option"
  event_str :: string

type_synonym outcomes = "(string \<times> string option) list"

text \<open>Lines 136 to 151: the outcome a completed record assigns.\<close>

definition completed_outcome :: "bep_event \<Rightarrow> error + string" where
  "completed_outcome ev =
     (if aborted ev then Inr ''aborted''
      else case completed ev of
        Some c \<Rightarrow>
          (if success c = Some True then Inr ''success''
           else case failureDetail c of
             Some (Some m) \<Rightarrow> Inr m
           | Some None \<Rightarrow> Inl (KeyError ''message'')
           | None \<Rightarrow> Inr (completed_str c))
      | None \<Rightarrow> Inr (event_str ev))"

text \<open>Lines 129 to 151: the body of the loop over the keys of \<^verbatim>\<open>id\<close>, for one key.\<close>

definition process_key :: "bep_event \<Rightarrow> outcomes \<Rightarrow> string \<times> string option \<Rightarrow> error + outcomes" where
  "process_key ev outs kl =
     (if fst kl = ''targetConfigured'' then
        (case snd kl of
           None \<Rightarrow> Inl (KeyError ''label'')
         | Some label \<Rightarrow> Inr (AList.update label None outs))
      else if fst kl = ''targetCompleted'' then
        (case snd kl of
           None \<Rightarrow> Inl (KeyError ''label'')
         | Some label \<Rightarrow>
             (if label \<notin> set (map fst outs)
              then Inl (RuntimeError (''Haven't seen this target before: '' @ label))
              else case completed_outcome ev of
                     Inl e \<Rightarrow> Inl e
                   | Inr v \<Rightarrow> Inr (AList.update label (Some v) outs)))
      else Inr outs)"

fun process_keys :: "bep_event \<Rightarrow> outcomes \<Rightarrow> (string \<times> string option) list \<Rightarrow> error + outcomes" where
  "process_keys ev outs [] = Inr outs"
| "process_keys ev outs (kl # kls) =
     (case process_key ev outs kl of
        Inl e \<Rightarrow> Inl e
      | Inr outs' \<Rightarrow> process_keys ev outs' kls)"

text \<open>The loop over the lines of the file, from a given dictionary.\<close>

fun read_events :: "outcomes \<Rightarrow> bep_event list \<Rightarrow> error + outcomes" where
  "read_events outs [] = Inr outs"
| "read_events outs (ev # evs) =
     (case process_keys ev outs (id_keys ev) of
        Inl e \<Rightarrow> Inl e
      | Inr outs' \<Rightarrow> read_events outs' evs)"

definition read_build_event_protocol :: "bep_event list \<Rightarrow> error + outcomes" where
  "read_build_event_protocol evs = read_events [] evs"

subsection \<open>Package keys\<close>

text \<open>
  \<^verbatim>\<open>re.search(r"^(.*?):", target)\<close>: without flags \<^verbatim>\<open>^\<close> matches at the start of the
  string only, the dot matches every character but the line feed, and the lazy group
  stops at the first colon it can. \<open>search_group\<close> is the group of the match, if any.
\<close>

fun search_group :: "string \<Rightarrow> string option" where
  "search_group [] = None"
| "search_group (c # cs) =
     (if c = CHR '':'' then Some []
      else if c = CHR 0x0A then None
      else map_option ((#) c) (search_group cs))"

definition get_package :: "string \<Rightarrow> error + string" where
  "get_package target =
     (case search_group target of
        Some g \<Rightarrow> Inr g
      | None \<Rightarrow> Inl (RuntimeError (''Error parsing package for: '' @ target @ ''.'')))"

subsection \<open>The forest of packages\<close>

datatype PackageTreeNode =
  PackageTreeNode
    (package: string)
    (depth: nat)
    (children: "PackageTreeNode list")
    (package_num_successes: nat)
    (package_num_targets: nat)
    (subtree_num_successes: nat)
    (subtree_num_targets: nat)

text \<open>The constructor call \<^verbatim>\<open>PackageTreeNode(package, 0)\<close> and the assignment to
  \<^verbatim>\<open>node.depth\<close>.\<close>

definition new_node :: "string \<Rightarrow> PackageTreeNode" where
  "new_node p = PackageTreeNode p 0 [] 0 0 0 0"

fun set_depth :: "nat \<Rightarrow> PackageTreeNode \<Rightarrow> PackageTreeNode" where
  "set_depth d' (PackageTreeNode p d cs ps pt ss st) = PackageTreeNode p d' cs ps pt ss st"

text \<open>
  \<open>insert_node_into_tree\<close> updates the tree in place; here it returns the updated
  tree. The loop of lines 43 to 47 and the loop of lines 55 to 59 are the same scan: the
  first element whose key the new key starts with takes the node, and the scan stops.
  \<open>first_match_insert\<close> is that scan; it returns \<open>None\<close> when no element matched
  (\<^verbatim>\<open>found_longer_suffix\<close>, \<^verbatim>\<open>found_suffix\<close> still false).
\<close>

fun insert_node_into_tree :: "PackageTreeNode \<Rightarrow> PackageTreeNode \<Rightarrow> PackageTreeNode"
  and first_match_insert :: "PackageTreeNode list \<Rightarrow> PackageTreeNode \<Rightarrow> PackageTreeNode list option"
where
  "insert_node_into_tree (PackageTreeNode p d cs ps pt ss st) node =
     (case first_match_insert cs node of
        Some cs' \<Rightarrow> PackageTreeNode p d cs' ps pt ss st
      | None \<Rightarrow> PackageTreeNode p d (cs @ [set_depth (d + 1) node]) ps pt ss st)"
| "first_match_insert [] node = None"
| "first_match_insert (child # rest) node =
     (if prefix (package child) (package node)
      then Some (insert_node_into_tree child node # rest)
      else map_option ((#) child) (first_match_insert rest node))"

definition insert_node_into_forest :: "PackageTreeNode list \<Rightarrow> PackageTreeNode \<Rightarrow> PackageTreeNode list" where
  "insert_node_into_forest roots node =
     (case first_match_insert roots node of
        Some roots' \<Rightarrow> roots'
      | None \<Rightarrow> roots @ [set_depth 0 node])"

definition build_package_forest :: "string list \<Rightarrow> PackageTreeNode list" where
  "build_package_forest package_lst =
     foldl (\<lambda>result package. insert_node_into_forest result (new_node package)) [] package_lst"

subsection \<open>Aggregation\<close>

type_synonym package_targets = "(string \<times> string list) list"

text \<open>Reading a \<^verbatim>\<open>defaultdict(list)\<close>: a key that is absent reads as the empty list.
  (The dictionary then gains the key; the program reads the set of its keys before the
  first such read only.)\<close>

definition dd_get :: "package_targets \<Rightarrow> string \<Rightarrow> string list" where
  "dd_get m k = (case map_of m k of None \<Rightarrow> [] | Some ts \<Rightarrow> ts)"

text \<open>\<^verbatim>\<open>sum(outcomes[t] == "success" for t in targets)\<close>; a target that is not a key of
  \<^verbatim>\<open>outcomes\<close> raises.\<close>

fun count_successes :: "outcomes \<Rightarrow> string list \<Rightarrow> error + nat" where
  "count_successes outs [] = Inr 0"
| "count_successes outs (t # ts) =
     (case map_of outs t of
        None \<Rightarrow> Inl (KeyError t)
      | Some v \<Rightarrow>
          (case count_successes outs ts of
             Inl e \<Rightarrow> Inl e
           | Inr k \<Rightarrow> Inr ((if v = Some ''success'' then 1 else 0) + k)))"

text \<open>
  \<open>compute_counts\<close> returns the node with its four counters set. \<open>compute_children\<close> is
  the loop over \<^verbatim>\<open>node.children\<close>, with the two running sums
  \<^verbatim>\<open>subtree_number_of_targets\<close> and \<^verbatim>\<open>subtree_number_of_successes\<close>.
\<close>

fun compute_counts :: "package_targets \<Rightarrow> outcomes \<Rightarrow> PackageTreeNode \<Rightarrow> error + PackageTreeNode"
  and compute_children ::
    "package_targets \<Rightarrow> outcomes \<Rightarrow> PackageTreeNode list \<Rightarrow> nat \<Rightarrow> nat
      \<Rightarrow> error + (PackageTreeNode list \<times> nat \<times> nat)"
where
  "compute_counts tfp outs (PackageTreeNode p d cs ps pt ss st) =
     (case compute_children tfp outs cs 0 0 of
        Inl e \<Rightarrow> Inl e
      | Inr (cs', subtree_number_of_targets, subtree_number_of_successes) \<Rightarrow>
          (case count_successes outs (dd_get tfp p) of
             Inl e \<Rightarrow> Inl e
           | Inr k \<Rightarrow>
               Inr (PackageTreeNode p d cs' k (length (dd_get tfp p))
                      (subtree_number_of_successes + k)
                      (subtree_number_of_targets + length (dd_get tfp p)))))"
| "compute_children tfp outs [] t s = Inr ([], t, s)"
| "compute_children tfp outs (n # ns) t s =
     (case compute_counts tfp outs n of
        Inl e \<Rightarrow> Inl e
      | Inr n' \<Rightarrow>
          (case compute_children tfp outs ns (t + subtree_num_targets n') (s + subtree_num_successes n') of
             Inl e \<Rightarrow> Inl e
           | Inr (ns', t', s') \<Rightarrow> Inr (n' # ns', t', s')))"

text \<open>Lines 191 and 192: every root is aggregated, in the order of the list.\<close>

fun compute_forest :: "package_targets \<Rightarrow> outcomes \<Rightarrow> PackageTreeNode list \<Rightarrow> error + PackageTreeNode list" where
  "compute_forest tfp outs [] = Inr []"
| "compute_forest tfp outs (r # rs) =
     (case compute_counts tfp outs r of
        Inl e \<Rightarrow> Inl e
      | Inr r' \<Rightarrow>
          (case compute_forest tfp outs rs of
             Inl e \<Rightarrow> Inl e
           | Inr rs' \<Rightarrow> Inr (r' # rs')))"

subsection \<open>Formatting\<close>

text \<open>\<^verbatim>\<open>str\<close> of a count, and of an outcome (\<^verbatim>\<open>None\<close> prints as the word).\<close>

definition digit_char :: "nat \<Rightarrow> char" where
  "digit_char d = ''0123456789'' ! d"

fun str_nat :: "nat \<Rightarrow> string" where
  "str_nat n = (if n < 10 then [digit_char n] else str_nat (n div 10) @ [digit_char (n mod 10)])"

declare str_nat.simps [simp del]

definition str_outcome :: "string option \<Rightarrow> string" where
  "str_outcome v = (case v of None \<Rightarrow> ''None'' | Some s \<Rightarrow> s)"

text \<open>
  The format specifications \<^verbatim>\<open>.2f\<close> and \<^verbatim>\<open>.1%\<close> on a value that is not negative:
  the value is rounded to the given number of decimals, a tie going to the even
  neighbour, and written with exactly that many digits after the point.
\<close>

definition round_half_even :: "rat \<Rightarrow> nat" where
  "round_half_even x =
     (let f = nat \<lfloor>x\<rfloor>; r = x - of_int \<lfloor>x\<rfloor>
      in if r < 1 / 2 then f else if 1 / 2 < r then f + 1 else if even f then f else f + 1)"

definition zero_pad :: "nat \<Rightarrow> string \<Rightarrow> string" where
  "zero_pad w s = replicate (w - length s) (CHR ''0'') @ s"

definition format_f :: "nat \<Rightarrow> rat \<Rightarrow> string" where
  "format_f p x =
     (let n = round_half_even (x * 10 ^ p)
      in str_nat (n div 10 ^ p) @ (if p = 0 then [] else ''.'' @ zero_pad p (str_nat (n mod 10 ^ p))))"

definition format_percent :: "nat \<Rightarrow> rat \<Rightarrow> string" where
  "format_percent p x = format_f p (x * 100) @ ''%''"

text \<open>True division of two counts.\<close>

definition true_div :: "nat \<Rightarrow> nat \<Rightarrow> error + rat" where
  "true_div a b = (if b = 0 then Inl ZeroDivisionError else Inr (of_nat a / of_nat b))"

subsection \<open>The report\<close>

text \<open>The indentation of a node: \<^verbatim>\<open>"|" * depth\<close> and the box-drawing character U+251C.\<close>

definition indentation :: "PackageTreeNode \<Rightarrow> string" where
  "indentation node = replicate (depth node) (CHR ''|'') @ [CHR 0xE2, CHR 0x94, CHR 0x9C]"

definition package_line :: "PackageTreeNode \<Rightarrow> rat \<Rightarrow> string" where
  "package_line node package_success_fraction =
     indentation node @ ''Package '' @ package node @ '':all build percentage: ''
       @ format_percent 1 package_success_fraction
       @ '' ('' @ str_nat (package_num_successes node) @ ''/'' @ str_nat (package_num_targets node) @ '')''"

definition target_line :: "PackageTreeNode \<Rightarrow> string \<Rightarrow> string option \<Rightarrow> string" where
  "target_line node t v = '' '' @ indentation node @ ''Target '' @ t @ '' : '' @ str_outcome v"

text \<open>Lines 114 to 118: the loop over the targets of the package of a node.\<close>

fun print_targets :: "outcomes \<Rightarrow> bool \<Rightarrow> PackageTreeNode \<Rightarrow> string list \<Rightarrow> printed" where
  "print_targets outcome_of expand node [] = ([], None)"
| "print_targets outcome_of expand node (t # ts) =
     (case map_of outcome_of t of
        None \<Rightarrow> ([], Some (KeyError t))
      | Some v \<Rightarrow>
          then_print
            (if (v = Some ''success'' \<and> expand) \<or> v \<noteq> Some ''success''
             then ([target_line node t v], None) else ([], None))
            (print_targets outcome_of expand node ts))"

text \<open>
  Lines 102 to 119: one turn of the loop, for the node taken from the front of the queue
  and the rest of the queue. It returns what the turn prints and the queue it leaves, or
  the exception it raises.
\<close>

definition visit ::
  "package_targets \<Rightarrow> outcomes \<Rightarrow> bool \<Rightarrow> bool \<Rightarrow> PackageTreeNode \<Rightarrow> PackageTreeNode list
     \<Rightarrow> string list \<times> (error + PackageTreeNode list)" where
  "visit package_to_target outcome_of print_individual_targets expand node queue =
     (case true_div (subtree_num_successes node) (subtree_num_targets node) of
        Inl e \<Rightarrow> ([], Inl e)
      | Inr subtree_success_fraction \<Rightarrow>
          if subtree_success_fraction < 1 \<or> expand then
            (case true_div (package_num_successes node) (package_num_targets node) of
               Inl e \<Rightarrow> ([], Inl e)
             | Inr package_success_fraction \<Rightarrow>
                 (case (if expand \<and> print_individual_targets
                        then print_targets outcome_of expand node (dd_get package_to_target (package node))
                        else ([], None)) of
                    (ls, Some e) \<Rightarrow> (package_line node package_success_fraction # ls, Inl e)
                  | (ls, None) \<Rightarrow>
                      (package_line node package_success_fraction # ls,
                       Inr (sort_key package (children node) @ queue))))
          else ([], Inr queue))"

text \<open>
  The \<^verbatim>\<open>while queue\<close> loop. Every turn removes a node from the queue and puts back at
  most its children, so the number of nodes in the trees of the queue decreases.
\<close>

function print_queue ::
  "package_targets \<Rightarrow> outcomes \<Rightarrow> bool \<Rightarrow> bool \<Rightarrow> PackageTreeNode list \<Rightarrow> printed" where
  "print_queue package_to_target outcome_of print_individual_targets expand [] = ([], None)"
| "print_queue package_to_target outcome_of print_individual_targets expand (node # queue) =
     (case visit package_to_target outcome_of print_individual_targets expand node queue of
        (ls, Inl e) \<Rightarrow> (ls, Some e)
      | (ls, Inr queue') \<Rightarrow>
          then_print (ls, None)
            (print_queue package_to_target outcome_of print_individual_targets expand queue'))"
  by pat_completeness auto
termination
proof (relation "measure (\<lambda>(ptt, outs, pit, expand, queue). sum_list (map size queue))")
  show "wf (measure (\<lambda>(ptt, outs, pit, expand, queue). sum_list (map size queue)))"
    by simp
next
  fix ptt :: package_targets and outs :: outcomes and pit expand :: bool
    and node :: PackageTreeNode and queue queue' :: "PackageTreeNode list"
    and ls :: "string list" and y :: "error + PackageTreeNode list"
  assume v: "(ls, y) = visit ptt outs pit expand node queue" "y = Inr queue'"
  have "sum_mset (image_mset size (mset (sort_key package (children node))))
          = sum_mset (image_mset size (mset (children node)))"
    by simp
  then have s: "sum_list (map size (sort_key package (children node))) = sum_list (map size (children node))"
    by (metis mset_map sum_mset_sum_list)
  have c: "sum_list (map size (children node)) < size node"
    by (cases node) (simp add: size_list_conv_sum_list)
  from v have "queue' = queue \<or> queue' = sort_key package (children node) @ queue"
    by (auto simp: visit_def split: sum.splits if_splits prod.splits option.splits)
  then have "sum_list (map size queue') < sum_list (map size (node # queue))"
    using s c by auto
  then show "((ptt, outs, pit, expand, queue'), (ptt, outs, pit, expand, node # queue))
               \<in> measure (\<lambda>(ptt, outs, pit, expand, queue). sum_list (map size queue))"
    by simp
qed

definition print_forest ::
  "PackageTreeNode \<Rightarrow> package_targets \<Rightarrow> outcomes \<Rightarrow> bool \<Rightarrow> bool \<Rightarrow> printed" where
  "print_forest r package_to_target outcome_of print_individual_targets expand =
     print_queue package_to_target outcome_of print_individual_targets expand [r]"

subsection \<open>The script after the build\<close>

text \<open>Lines 180 to 182: the targets of every package, in the order of the outcome
  dictionary; a key is created with the empty list when it is first read.\<close>

fun group_targets :: "string list \<Rightarrow> package_targets \<Rightarrow> error + package_targets" where
  "group_targets [] m = Inr m"
| "group_targets (target # ts) m =
     (case get_package target of
        Inl e \<Rightarrow> Inl e
      | Inr p \<Rightarrow> group_targets ts (AList.update p (dd_get m p @ [target]) m))"

text \<open>Lines 196 to 199: the roots are printed one after the other.\<close>

fun print_roots ::
  "package_targets \<Rightarrow> outcomes \<Rightarrow> bool \<Rightarrow> bool \<Rightarrow> PackageTreeNode list \<Rightarrow> printed" where
  "print_roots package_to_target outcome_of print_individual_targets expand [] = ([], None)"
| "print_roots package_to_target outcome_of print_individual_targets expand (r # rs) =
     then_print (print_forest r package_to_target outcome_of print_individual_targets expand)
       (print_roots package_to_target outcome_of print_individual_targets expand rs)"

text \<open>Lines 201 to 203.\<close>

definition count_success_values :: "outcomes \<Rightarrow> nat" where
  "count_success_values outcome_of = length (filter (\<lambda>v. v = Some ''success'') (map snd outcome_of))"

definition overall_percentage :: "outcomes \<Rightarrow> error + rat" where
  "overall_percentage outcome_of =
     (case true_div (count_success_values outcome_of) (length outcome_of) of
        Inl e \<Rightarrow> Inl e
      | Inr q \<Rightarrow> Inr (q * 100))"

definition overall_line :: "rat \<Rightarrow> string" where
  "overall_line pct = ''Overall build percent: '' @ format_f 2 pct @ ''%''"

text \<open>Lines 204 and 205, after the percentage has been computed.\<close>

definition print_overall :: "outcomes \<Rightarrow> printed" where
  "print_overall outcome_of =
     (case overall_percentage outcome_of of
        Inl e \<Rightarrow> ([], Some e)
      | Inr pct \<Rightarrow> (['''', overall_line pct], None))"

text \<open>
  Lines 179 to 205, from the outcome dictionary. The roots after aggregation are kept
  in \<open>aggregate\<close>, so that the report and the theorems speak of the same forest.
\<close>

definition aggregate :: "outcomes \<Rightarrow> error + (package_targets \<times> PackageTreeNode list)" where
  "aggregate outcome_of =
     (case group_targets (map fst outcome_of) [] of
        Inl e \<Rightarrow> Inl e
      | Inr package_to_targets \<Rightarrow>
          (case compute_forest package_to_targets outcome_of
                  (build_package_forest (sort (map fst package_to_targets))) of
             Inl e \<Rightarrow> Inl e
           | Inr all_roots \<Rightarrow> Inr (package_to_targets, all_roots)))"

definition report :: "outcomes \<Rightarrow> bool \<Rightarrow> printed" where
  "report outcome_of expand =
     (case aggregate outcome_of of
        Inl e \<Rightarrow> ([], Some e)
      | Inr (package_to_targets, all_roots) \<Rightarrow>
          then_print ([''''], None)
            (then_print
               (print_roots package_to_targets outcome_of (length package_to_targets \<le> 1) expand
                  (sort_key package all_roots))
               (print_overall outcome_of)))"

text \<open>Lines 177 to 205, from the decoded lines of the event file.\<close>

definition main :: "bep_event list \<Rightarrow> bool \<Rightarrow> printed" where
  "main evs expand =
     (case read_build_event_protocol evs of
        Inl e \<Rightarrow> ([], Some e)
      | Inr outcome_of \<Rightarrow> report outcome_of expand)"

subsection \<open>Vocabulary of the statements\<close>

text \<open>
  Records as the build tool writes them: one key in \<^verbatim>\<open>id\<close>; a completed record that
  reports success, and one that reports a failure with a message.
\<close>

definition target_configured :: "string \<Rightarrow> bep_event" where
  "target_configured label =
     \<lparr>id_keys = [(''targetConfigured'', Some label)], aborted = False, completed = None,
      event_str = ''{}''\<rparr>"

definition target_completed :: "string \<Rightarrow> completed_result \<Rightarrow> bep_event" where
  "target_completed label c =
     \<lparr>id_keys = [(''targetCompleted'', Some label)], aborted = False, completed = Some c,
      event_str = ''{}''\<rparr>"

definition succeeded :: completed_result where
  "succeeded = \<lparr>success = Some True, failureDetail = None, completed_str = ''{}''\<rparr>"

definition failed :: "string \<Rightarrow> completed_result" where
  "failed m = \<lparr>success = None, failureDetail = Some (Some m), completed_str = ''{}''\<rparr>"

text \<open>The labels of the \<^verbatim>\<open>targetConfigured\<close> keys of a stream, in the order of the stream.\<close>

definition configured_labels :: "bep_event list \<Rightarrow> string list" where
  "configured_labels evs =
     concat (map (\<lambda>ev. concat (map (\<lambda>kl. case snd kl of Some l \<Rightarrow> if fst kl = ''targetConfigured'' then [l] else [] | None \<Rightarrow> []) (id_keys ev))) evs)"

text \<open>A node with all its descendants, and the nodes of a forest.\<close>

fun nodes :: "PackageTreeNode \<Rightarrow> PackageTreeNode list" where
  "nodes (PackageTreeNode p d cs ps pt ss st) =
     PackageTreeNode p d cs ps pt ss st # concat (map nodes cs)"

definition forest_nodes :: "PackageTreeNode list \<Rightarrow> PackageTreeNode list" where
  "forest_nodes roots = concat (map nodes roots)"

text \<open>What a node records once \<open>compute_counts\<close> has run on it, and what the report
  needs of a node to print it without an exception.\<close>

definition aggregated :: "package_targets \<Rightarrow> outcomes \<Rightarrow> PackageTreeNode \<Rightarrow> bool" where
  "aggregated tfp outs n \<longleftrightarrow>
     package_num_targets n = length (dd_get tfp (package n))
   \<and> count_successes outs (dd_get tfp (package n)) = Inr (package_num_successes n)
   \<and> subtree_num_targets n = package_num_targets n + sum_list (map subtree_num_targets (children n))
   \<and> subtree_num_successes n = package_num_successes n + sum_list (map subtree_num_successes (children n))"


text \<open>
  A valid forest. \<open>unrelated_keys\<close> says that no key of a list is a prefix of another
  one (so no two are equal either). \<open>valid_tree ancestors n\<close> says of the node \<open>n\<close>,
  reached from a root through the nodes whose keys are \<open>ancestors\<close>, and of every node
  below it: the depth is the length of the chain of ancestors; the key starts with the
  key of every ancestor, the parent among them, and is none of these keys (no node is
  its own ancestor); and no two children stand in a prefix relation.
\<close>

fun unrelated_keys :: "string list \<Rightarrow> bool" where
  "unrelated_keys [] = True"
| "unrelated_keys (k # ks) = ((\<forall>k' \<in> set ks. \<not> prefix k k' \<and> \<not> prefix k' k) \<and> unrelated_keys ks)"

definition siblings_unrelated :: "PackageTreeNode list \<Rightarrow> bool" where
  "siblings_unrelated cs = unrelated_keys (map package cs)"

fun valid_tree :: "string list \<Rightarrow> PackageTreeNode \<Rightarrow> bool" where
  "valid_tree ancestors (PackageTreeNode p d cs ps pt ss st) =
     (d = length ancestors
      \<and> (\<forall>a \<in> set ancestors. strict_prefix a p)
      \<and> siblings_unrelated cs
      \<and> (\<forall>c \<in> set cs. valid_tree (ancestors @ [p]) c))"

definition valid_forest :: "PackageTreeNode list \<Rightarrow> bool" where
  "valid_forest roots = (siblings_unrelated roots \<and> (\<forall>r \<in> set roots. valid_tree [] r))"


section \<open>The outcome extractor\<close>

lemma update_keys_set: "set (map fst (AList.update k v al)) = insert k (set (map fst al))"
  using AList.dom_update [of k v al] by simp

lemma process_key_keys:
  "process_key ev outs kl = Inr outs' \<Longrightarrow>
   set (map fst outs') = set (map fst outs)
      \<union> set (case snd kl of Some l \<Rightarrow> if fst kl = ''targetConfigured'' then [l] else [] | None \<Rightarrow> [])"
  unfolding process_key_def
  by (auto simp: update_keys_set simp del: set_map split: if_splits option.splits sum.splits)

lemma process_keys_keys:
  "process_keys ev outs kls = Inr outs' \<Longrightarrow>
   set (map fst outs') = set (map fst outs)
      \<union> set (concat (map (\<lambda>kl. case snd kl of Some l \<Rightarrow> if fst kl = ''targetConfigured'' then [l] else [] | None \<Rightarrow> []) kls))"
proof (induction kls arbitrary: outs)
  case Nil
  then show ?case by simp
next
  case (Cons kl kls)
  from Cons.prems obtain o1 where 1: "process_key ev outs kl = Inr o1"
    and 2: "process_keys ev o1 kls = Inr outs'"
    by (auto split: sum.splits)
  show ?case
    using process_key_keys [OF 1] Cons.IH [OF 2] by auto
qed

lemma read_events_keys:
  "read_events outs evs = Inr outs' \<Longrightarrow>
   set (map fst outs') = set (map fst outs) \<union> set (configured_labels evs)"
proof (induction evs arbitrary: outs)
  case Nil
  then show ?case by (simp add: configured_labels_def)
next
  case (Cons ev evs)
  from Cons.prems obtain o1 where 1: "process_keys ev outs (id_keys ev) = Inr o1"
    and 2: "read_events o1 evs = Inr outs'"
    by (auto split: sum.splits)
  show ?case
    using process_keys_keys [OF 1] Cons.IH [OF 2] by (auto simp: configured_labels_def)
qed

lemma read_events_append:
  "read_events outs (evs @ evs') =
     (case read_events outs evs of Inl e \<Rightarrow> Inl e | Inr o1 \<Rightarrow> read_events o1 evs')"
  by (induction evs arbitrary: outs) (auto split: sum.splits)





lemma read_build_event_protocol_snoc:
  "read_build_event_protocol evs = Inr outs \<Longrightarrow>
   read_build_event_protocol (evs @ ev # post) =
     (case process_keys ev outs (id_keys ev) of Inl e \<Rightarrow> Inl e | Inr o1 \<Rightarrow> read_events o1 post)"
  by (simp add: read_build_event_protocol_def read_events_append)

text \<open>
  Claim C3, as the program has it. A \<^verbatim>\<open>targetConfigured\<close> record for a label \<open>L\<close>
  sets the outcome of \<open>L\<close> to pending whether or not \<open>L\<close> is registered: a label that
  is new is added at the end of the dictionary, a label that is registered keeps its
  place and loses the outcome it had. The outcome of every other label is unchanged.
\<close>

theorem configured_resets_outcome:
  assumes "read_build_event_protocol evs = Inr outs"
    and "id_keys ev = [(''targetConfigured'', Some L)]"
  shows "\<exists>outs'. read_build_event_protocol (evs @ [ev]) = Inr outs'
           \<and> map_of outs' L = Some None
           \<and> (\<forall>L'. L' \<noteq> L \<longrightarrow> map_of outs' L' = map_of outs L')
           \<and> map fst outs' = (if L \<in> set (map fst outs) then map fst outs else map fst outs @ [L])"
proof -
  have "read_build_event_protocol (evs @ [ev]) = Inr (AList.update L None outs)"
    using assms by (simp add: read_build_event_protocol_snoc process_key_def)
  moreover have "map_of (AList.update L None outs) L = Some None"
    by (simp add: AList.update_conv')
  moreover have "\<forall>L'. L' \<noteq> L \<longrightarrow> map_of (AList.update L None outs) L' = map_of outs L'"
    by (simp add: AList.update_conv')
  moreover have "map fst (AList.update L None outs)
      = (if L \<in> set (map fst outs) then map fst outs else map fst outs @ [L])"
    by (simp add: AList.update_keys)
  ultimately show ?thesis by blast
qed

theorem configured_resets_outcome_witness:
  "\<exists>outs'. read_build_event_protocol ([target_configured ''//a:x'', target_completed ''//a:x'' succeeded] @ [target_configured ''//a:x'']) = Inr outs'
      \<and> map_of outs' ''//a:x'' = Some None
      \<and> map fst outs' = [''//a:x'']"
proof -
  have r: "read_build_event_protocol [target_configured ''//a:x'', target_completed ''//a:x'' succeeded]
             = Inr [(''//a:x'', Some ''success'')]"
    by (simp add: read_build_event_protocol_def target_configured_def target_completed_def
        succeeded_def process_key_def completed_outcome_def)
  have k: "id_keys (target_configured ''//a:x'') = [(''targetConfigured'', Some ''//a:x'')]"
    by (simp add: target_configured_def)
  show ?thesis
    using configured_resets_outcome [OF r k] by auto
qed

text \<open>
  Claim C3 as the specification states it fails: a label that has completed with success
  is pending again after a second \<^verbatim>\<open>targetConfigured\<close> record.
\<close>

theorem configured_after_completed_counterexample:
  "read_build_event_protocol [target_configured ''//a:x'', target_completed ''//a:x'' succeeded]
     = Inr [(''//a:x'', Some ''success'')]
   \<and> read_build_event_protocol
       [target_configured ''//a:x'', target_completed ''//a:x'' succeeded, target_configured ''//a:x'']
     = Inr [(''//a:x'', None)]"
  by (simp add: read_build_event_protocol_def target_configured_def target_completed_def
      succeeded_def process_key_def completed_outcome_def)

text \<open>
  Claim C7. After a stream that was read without an exception, a \<^verbatim>\<open>targetCompleted\<close>
  record for a label that no \<^verbatim>\<open>targetConfigured\<close> record of the stream has named stops
  the extractor with the exception \<^verbatim>\<open>Haven't seen this target before\<close>, whatever
  follows the record; for a label that has been named the record raises no
  \<^verbatim>\<open>RuntimeError\<close>.
\<close>

theorem completed_before_configured:
  assumes "read_build_event_protocol pre = Inr outs"
    and "id_keys ev = [(''targetCompleted'', Some L)]"
  shows "(L \<notin> set (configured_labels pre) \<longrightarrow>
            read_build_event_protocol (pre @ ev # post)
              = Inl (RuntimeError (''Haven't seen this target before: '' @ L)))
       \<and> (L \<in> set (configured_labels pre) \<longrightarrow>
            (\<forall>m. read_build_event_protocol (pre @ [ev]) \<noteq> Inl (RuntimeError m)))"
proof -
  have keys: "set (map fst outs) = set (configured_labels pre)"
    using read_events_keys [of "[]" pre outs] assms(1)
    by (simp add: read_build_event_protocol_def)
  have "completed_outcome ev \<noteq> Inl (RuntimeError m)" for m
    by (simp add: completed_outcome_def split: option.splits)
  then show ?thesis
    using assms keys
    by (auto simp: read_build_event_protocol_snoc process_key_def split: sum.splits)
qed

theorem completed_before_configured_witness:
  "read_build_event_protocol ([target_configured ''//a:x''] @ target_completed ''//a:y'' succeeded # [target_configured ''//a:y''])
     = Inl (RuntimeError ''Haven't seen this target before: //a:y'')
   \<and> (\<forall>m. read_build_event_protocol ([target_configured ''//a:x''] @ [target_completed ''//a:x'' succeeded]) \<noteq> Inl (RuntimeError m))"
proof -
  have r: "read_build_event_protocol [target_configured ''//a:x''] = Inr [(''//a:x'', None)]"
    by (simp add: read_build_event_protocol_def target_configured_def process_key_def)
  have ky: "id_keys (target_completed ''//a:y'' succeeded) = [(''targetCompleted'', Some ''//a:y'')]"
    and kx: "id_keys (target_completed ''//a:x'' succeeded) = [(''targetCompleted'', Some ''//a:x'')]"
    by (simp_all add: target_completed_def)
  have c: "configured_labels [target_configured ''//a:x''] = [''//a:x'']"
    by (simp add: configured_labels_def target_configured_def)
  show ?thesis
    using completed_before_configured [OF r ky, of "[target_configured ''//a:y'']"]
      completed_before_configured [OF r kx, of "[]"] c
    by simp
qed


section \<open>The package key\<close>

lemma search_group_eq:
  "search_group label =
     (if CHR '':'' \<in> set label \<and> CHR 0x0A \<notin> set (takeWhile (\<lambda>c. c \<noteq> CHR '':'') label)
      then Some (takeWhile (\<lambda>c. c \<noteq> CHR '':'') label) else None)"
  by (induction label) auto

text \<open>
  Claim C8, as the program has it. The package key of a label is the part before its
  first colon, provided the label has a colon and no line feed stands before the first
  one; in every other case, that is when the label has no colon or a line feed comes
  before the first colon, the derivation raises the parse error.
\<close>

theorem get_package_first_colon:
  "get_package label =
     (if CHR '':'' \<in> set label \<and> CHR 0x0A \<notin> set (takeWhile (\<lambda>c. c \<noteq> CHR '':'') label)
      then Inr (takeWhile (\<lambda>c. c \<noteq> CHR '':'') label)
      else Inl (RuntimeError (''Error parsing package for: '' @ label @ ''.'')))"
  by (simp add: get_package_def search_group_eq)

theorem get_package_first_colon_witness:
  "get_package ''//a/b:c:d'' = Inr ''//a/b''
   \<and> get_package ''foo'' = Inl (RuntimeError ''Error parsing package for: foo.'')"
  using get_package_first_colon [of "''//a/b:c:d''"] get_package_first_colon [of "''foo''"]
  by simp

text \<open>
  Claim C8 as the specification states it fails: a label can contain a colon and still
  have no package key.
\<close>

theorem get_package_line_feed_counterexample:
  "CHR '':'' \<in> set [CHR ''a'', CHR 0x0A, CHR ''b'', CHR '':'', CHR ''c'']
   \<and> get_package [CHR ''a'', CHR 0x0A, CHR ''b'', CHR '':'', CHR ''c'']
       = Inl (RuntimeError (''Error parsing package for: '' @ [CHR ''a'', CHR 0x0A, CHR ''b'', CHR '':'', CHR ''c''] @ ''.''))"
  by (simp add: get_package_def)

section \<open>Aggregation\<close>

lemma nodes_unfold: "nodes n = n # concat (map nodes (children n))"
  by (cases n) simp

lemma count_successes_le: "count_successes outs ts = Inr k \<Longrightarrow> k \<le> length ts"
  by (induction ts arbitrary: k) (auto split: option.splits sum.splits)

lemma count_successes_total:
  "set ts \<subseteq> set (map fst outs) \<Longrightarrow> \<exists>k. count_successes outs ts = Inr k"
proof (induction ts)
  case Nil
  then show ?case by simp
next
  case (Cons t ts)
  then obtain k where k: "count_successes outs ts = Inr k" by auto
  from Cons.prems have "t \<in> fst ` set outs" by simp
  then obtain v where "map_of outs t = Some v"
    by (metis domD dom_map_of_conv_image_fst)
  with k show ?case by simp
qed

lemma compute_aggregated:
  "(\<forall>n'. compute_counts tfp outs n = Inr n' \<longrightarrow>
      package n' = package n \<and> depth n' = depth n \<and> (\<forall>m \<in> set (nodes n'). aggregated tfp outs m)
      \<and> map package (nodes n') = map package (nodes n))"
  "(\<forall>ns' t' s'. compute_children tfp outs ns t s = Inr (ns', t', s') \<longrightarrow>
      t' = t + sum_list (map subtree_num_targets ns')
    \<and> s' = s + sum_list (map subtree_num_successes ns')
    \<and> (\<forall>m \<in> set (forest_nodes ns'). aggregated tfp outs m)
    \<and> map package (forest_nodes ns') = map package (forest_nodes ns))"
proof (induction tfp outs n and tfp outs ns t s rule: compute_counts_compute_children.induct)
  case (1 tfp outs p d cs ps pt ss st)
  show ?case
  proof (intro allI impI)
    fix n'
    assume a: "compute_counts tfp outs (PackageTreeNode p d cs ps pt ss st) = Inr n'"
    then obtain cs' t' s' k where c: "compute_children tfp outs cs 0 0 = Inr (cs', t', s')"
      and k: "count_successes outs (dd_get tfp p) = Inr k"
      and n': "n' = PackageTreeNode p d cs' k (length (dd_get tfp p)) (s' + k) (t' + length (dd_get tfp p))"
      by (auto split: sum.splits prod.splits)
    from 1 c have ih: "t' = sum_list (map subtree_num_targets cs')"
      "s' = sum_list (map subtree_num_successes cs')"
      "\<forall>m \<in> set (forest_nodes cs'). aggregated tfp outs m"
      "map package (forest_nodes cs') = map package (forest_nodes cs)"
      by auto
    have "aggregated tfp outs n'"
      using ih k by (simp add: n' aggregated_def)
    then show "package n' = package (PackageTreeNode p d cs ps pt ss st) \<and>
      depth n' = depth (PackageTreeNode p d cs ps pt ss st) \<and>
      (\<forall>m \<in> set (nodes n'). aggregated tfp outs m) \<and>
      map package (nodes n') = map package (nodes (PackageTreeNode p d cs ps pt ss st))"
      using ih(3,4) by (simp add: n' forest_nodes_def)
  qed
next
  case (2 tfp outs t s)
  then show ?case by (simp add: forest_nodes_def)
next
  case (3 tfp outs n ns t s)
  show ?case
  proof (intro allI impI)
    fix ns' t' s'
    assume a: "compute_children tfp outs (n # ns) t s = Inr (ns', t', s')"
    then obtain n' ns1 where n': "compute_counts tfp outs n = Inr n'"
      and r: "compute_children tfp outs ns (t + subtree_num_targets n') (s + subtree_num_successes n')
                = Inr (ns1, t', s')"
      and ns': "ns' = n' # ns1"
      by (auto split: sum.splits prod.splits)
    from 3(1) n' have h1: "\<forall>m \<in> set (nodes n'). aggregated tfp outs m"
      "map package (nodes n') = map package (nodes n)" by auto
    from 3(2) [OF n'] r have h2: "t' = t + subtree_num_targets n' + sum_list (map subtree_num_targets ns1)"
      "s' = s + subtree_num_successes n' + sum_list (map subtree_num_successes ns1)"
      "\<forall>m \<in> set (forest_nodes ns1). aggregated tfp outs m"
      "map package (forest_nodes ns1) = map package (forest_nodes ns)"
      by auto
    show "t' = t + sum_list (map subtree_num_targets ns')
    \<and> s' = s + sum_list (map subtree_num_successes ns')
    \<and> (\<forall>m \<in> set (forest_nodes ns'). aggregated tfp outs m)
    \<and> map package (forest_nodes ns') = map package (forest_nodes (n # ns))"
      using h1 h2 by (auto simp: ns' forest_nodes_def)
  qed
qed

lemma compute_total:
  "(\<forall>m \<in> set (nodes n). set (dd_get tfp (package m)) \<subseteq> set (map fst outs)) \<longrightarrow>
     (\<exists>n'. compute_counts tfp outs n = Inr n')"
  "(\<forall>m \<in> set (forest_nodes ns). set (dd_get tfp (package m)) \<subseteq> set (map fst outs)) \<longrightarrow>
     (\<exists>r. compute_children tfp outs ns t s = Inr r)"
proof (induction tfp outs n and tfp outs ns t s rule: compute_counts_compute_children.induct)
  case (1 tfp outs p d cs ps pt ss st)
  show ?case
  proof
    assume a: "\<forall>m \<in> set (nodes (PackageTreeNode p d cs ps pt ss st)).
                 set (dd_get tfp (package m)) \<subseteq> set (map fst outs)"
    then have "\<forall>m \<in> set (forest_nodes cs). set (dd_get tfp (package m)) \<subseteq> set (map fst outs)"
      by (simp add: forest_nodes_def)
    with 1 obtain r where r: "compute_children tfp outs cs 0 0 = Inr r" by blast
    from a have "set (dd_get tfp p) \<subseteq> set (map fst outs)" by simp
    then obtain k where "count_successes outs (dd_get tfp p) = Inr k"
      using count_successes_total by blast
    with r show "\<exists>n'. compute_counts tfp outs (PackageTreeNode p d cs ps pt ss st) = Inr n'"
      by (cases r) simp
  qed
next
  case (2 tfp outs t s)
  then show ?case by simp
next
  case (3 tfp outs n ns t s)
  show ?case
  proof
    assume a: "\<forall>m \<in> set (forest_nodes (n # ns)). set (dd_get tfp (package m)) \<subseteq> set (map fst outs)"
    then have a1: "\<forall>m \<in> set (nodes n). set (dd_get tfp (package m)) \<subseteq> set (map fst outs)"
      and a2: "\<forall>m \<in> set (forest_nodes ns). set (dd_get tfp (package m)) \<subseteq> set (map fst outs)"
      by (simp_all add: forest_nodes_def)
    from 3(1) a1 obtain n' where n': "compute_counts tfp outs n = Inr n'" by blast
    from 3(2) [OF n'] a2 obtain r where
      "compute_children tfp outs ns (t + subtree_num_targets n') (s + subtree_num_successes n') = Inr r"
      by blast
    with n' show "\<exists>r. compute_children tfp outs (n # ns) t s = Inr r"
      by (cases r) simp
  qed
qed


lemma compute_forest_aggregated:
  "compute_forest tfp outs rs = Inr rs' \<Longrightarrow>
     (\<forall>m \<in> set (forest_nodes rs'). aggregated tfp outs m)
   \<and> map package (forest_nodes rs') = map package (forest_nodes rs)
   \<and> map package rs' = map package rs"
proof (induction rs arbitrary: rs')
  case Nil
  then show ?case by (simp add: forest_nodes_def)
next
  case (Cons r rs)
  from Cons.prems obtain r' rs1 where r': "compute_counts tfp outs r = Inr r'"
    and rs1: "compute_forest tfp outs rs = Inr rs1" and eq: "rs' = r' # rs1"
    by (auto split: sum.splits)
  show ?case
    using compute_aggregated(1) [of tfp outs r] r' Cons.IH [OF rs1]
    by (auto simp: eq forest_nodes_def)
qed

lemma compute_forest_total:
  "\<forall>m \<in> set (forest_nodes rs). set (dd_get tfp (package m)) \<subseteq> set (map fst outs) \<Longrightarrow>
   \<exists>rs'. compute_forest tfp outs rs = Inr rs'"
proof (induction rs)
  case Nil
  then show ?case by simp
next
  case (Cons r rs)
  then have a1: "\<forall>m \<in> set (nodes r). set (dd_get tfp (package m)) \<subseteq> set (map fst outs)"
    and a2: "\<forall>m \<in> set (forest_nodes rs). set (dd_get tfp (package m)) \<subseteq> set (map fst outs)"
    by (simp_all add: forest_nodes_def)
  from compute_total(1) [of r tfp outs] a1 obtain r' where "compute_counts tfp outs r = Inr r'"
    by blast
  moreover from Cons.IH [OF a2] obtain rs' where "compute_forest tfp outs rs = Inr rs'" ..
  ultimately show ?case by simp
qed

lemma nodes_closed: "m \<in> set (nodes n) \<Longrightarrow> set (nodes m) \<subseteq> set (nodes n)"
proof (induction n)
  case (PackageTreeNode p d cs ps pt ss st)
  show ?case
  proof (cases "m = PackageTreeNode p d cs ps pt ss st")
    case True
    then show ?thesis by simp
  next
    case False
    with PackageTreeNode.prems obtain c where c: "c \<in> set cs" "m \<in> set (nodes c)" by auto
    with PackageTreeNode.IH have "set (nodes m) \<subseteq> set (nodes c)" by blast
    with c(1) show ?thesis by auto
  qed
qed

lemma children_nodes: "m \<in> set (nodes n) \<Longrightarrow> c \<in> set (children m) \<Longrightarrow> c \<in> set (nodes n)"
proof -
  assume m: "m \<in> set (nodes n)" and c: "c \<in> set (children m)"
  have "c \<in> set (nodes c)" by (cases c) simp
  with c have "c \<in> set (nodes m)" by (cases m) auto
  with nodes_closed [OF m] show ?thesis by blast
qed

lemma aggregated_successes_le:
  "\<forall>m \<in> set (nodes n). aggregated tfp outs m \<Longrightarrow> subtree_num_successes n \<le> subtree_num_targets n"
proof (induction n)
  case (PackageTreeNode p d cs ps pt ss st)
  let ?n = "PackageTreeNode p d cs ps pt ss st"
  have "\<forall>c \<in> set cs. subtree_num_successes c \<le> subtree_num_targets c"
  proof
    fix c assume c: "c \<in> set cs"
    then have "set (nodes c) \<subseteq> set (nodes ?n)" by auto
    with PackageTreeNode.prems have "\<forall>m \<in> set (nodes c). aggregated tfp outs m" by blast
    with PackageTreeNode.IH c show "subtree_num_successes c \<le> subtree_num_targets c" by blast
  qed
  then have sum: "sum_list (map subtree_num_successes cs) \<le> sum_list (map subtree_num_targets cs)"
    by (simp add: sum_list_mono)
  from PackageTreeNode.prems have a: "aggregated tfp outs ?n" by simp
  then have "ps \<le> pt"
    using count_successes_le [of outs "dd_get tfp p" ps] by (simp add: aggregated_def)
  with a sum show ?case by (simp add: aggregated_def)
qed

lemma aggregated_node_le:
  assumes "\<forall>m \<in> set (forest_nodes rs). aggregated tfp outs m" and "n \<in> set (forest_nodes rs)"
  shows "subtree_num_successes n \<le> subtree_num_targets n"
proof -
  from assms(2) obtain r where r: "r \<in> set rs" "n \<in> set (nodes r)"
    by (auto simp: forest_nodes_def)
  then have "set (nodes n) \<subseteq> set (forest_nodes rs)"
    using nodes_closed [of n r] by (auto simp: forest_nodes_def)
  with assms(1) have "\<forall>m \<in> set (nodes n). aggregated tfp outs m" by blast
  then show ?thesis by (rule aggregated_successes_le)
qed

text \<open>
  Claim C6. When every target of every package of the forest has an outcome, the
  aggregation of the forest returns, and in the forest it returns every node has a
  subtree target count equal to its direct target count plus the subtree target counts
  of its children, a subtree success count equal to its direct success count plus the
  subtree success counts of its children, and a subtree success count that is at most
  its subtree target count.
\<close>

theorem subtree_counts_consistent:
  assumes "\<forall>m \<in> set (forest_nodes roots). set (dd_get tfp (package m)) \<subseteq> set (map fst outs)"
  shows "\<exists>roots'. compute_forest tfp outs roots = Inr roots'
           \<and> (\<forall>n \<in> set (forest_nodes roots').
                 subtree_num_targets n
                   = package_num_targets n + sum_list (map subtree_num_targets (children n))
               \<and> subtree_num_successes n
                   = package_num_successes n + sum_list (map subtree_num_successes (children n))
               \<and> subtree_num_successes n \<le> subtree_num_targets n)"
proof -
  from compute_forest_total [OF assms] obtain roots' where r: "compute_forest tfp outs roots = Inr roots'" ..
  from compute_forest_aggregated [OF r]
  have a: "\<forall>m \<in> set (forest_nodes roots'). aggregated tfp outs m" by simp
  have "subtree_num_successes n \<le> subtree_num_targets n" if "n \<in> set (forest_nodes roots')" for n
    using aggregated_node_le [OF a that] .
  with a r show ?thesis by (auto simp: aggregated_def)
qed


theorem subtree_counts_consistent_witness:
  "\<exists>roots'. compute_forest
       [(''//a'', [''//a:x'', ''//a:y'']), (''//a/b'', [''//a/b:z''])]
       [(''//a:x'', Some ''success''), (''//a:y'', None), (''//a/b:z'', Some ''success'')]
       [PackageTreeNode ''//a'' 0 [PackageTreeNode ''//a/b'' 1 [] 0 0 0 0] 0 0 0 0] = Inr roots'
     \<and> (\<forall>n \<in> set (forest_nodes roots').
           subtree_num_targets n
             = package_num_targets n + sum_list (map subtree_num_targets (children n))
         \<and> subtree_num_successes n
             = package_num_successes n + sum_list (map subtree_num_successes (children n))
         \<and> subtree_num_successes n \<le> subtree_num_targets n)"
proof -
  have h: "\<forall>m \<in> set (forest_nodes [PackageTreeNode ''//a'' 0 [PackageTreeNode ''//a/b'' 1 [] 0 0 0 0] 0 0 0 0]).
             set (dd_get [(''//a'', [''//a:x'', ''//a:y'']), (''//a/b'', [''//a/b:z''])] (package m))
               \<subseteq> set (map fst [(''//a:x'', Some ''success''), (''//a:y'', None), (''//a/b:z'', Some ''success'')])"
    by (auto simp: forest_nodes_def dd_get_def)
  show ?thesis
    using subtree_counts_consistent [OF h] .
qed

section \<open>The report raises no exception on an aggregated forest\<close>




lemma print_targets_error:
  "snd (print_targets outs expand node ts) = Some e \<Longrightarrow> \<exists>t. e = KeyError t"
proof (induction ts)
  case Nil
  then show ?case by simp
next
  case (Cons t ts)
  show ?case
  proof (cases "map_of outs t")
    case None
    with Cons.prems show ?thesis by auto
  next
    case (Some v)
    obtain ls e' where p: "print_targets outs expand node ts = (ls, e')"
      by (cases "print_targets outs expand node ts")
    with Some Cons.prems have "e' = Some e"
      by (auto split: if_splits)
    with p Cons.IH show ?thesis by simp
  qed
qed

lemma visit_positive_counts:
  assumes "subtree_num_targets node \<noteq> 0" and "package_num_targets node \<noteq> 0"
  shows "(\<exists>ls t. visit ptt outs pit expand node queue = (ls, Inl (KeyError t)))
       \<or> (\<exists>ls. visit ptt outs pit expand node queue = (ls, Inr queue))
       \<or> (\<exists>ls. visit ptt outs pit expand node queue = (ls, Inr (sort_key package (children node) @ queue)))"
proof -
  obtain ls e where p: "print_targets outs expand node (dd_get ptt (package node)) = (ls, e)"
    by (cases "print_targets outs expand node (dd_get ptt (package node))")
  show ?thesis
  proof (cases e)
    case None
    with p assms show ?thesis by (auto simp: visit_def true_div_def)
  next
    case (Some err)
    with p print_targets_error [of outs expand node "dd_get ptt (package node)" err]
    obtain t where "err = KeyError t" by auto
    with p Some assms show ?thesis by (auto simp: visit_def true_div_def)
  qed
qed

lemma print_queue_no_zero_division:
  "\<forall>m \<in> set (forest_nodes queue). subtree_num_targets m \<noteq> 0 \<and> package_num_targets m \<noteq> 0 \<Longrightarrow>
   snd (print_queue ptt outs pit expand queue) \<noteq> Some ZeroDivisionError"
proof (induction ptt outs pit expand queue rule: print_queue.induct)
  case (1 ptt outs pit expand)
  then show ?case by simp
next
  case (2 ptt outs pit expand node queue)
  have n: "node \<in> set (forest_nodes (node # queue))"
    by (cases node) (simp add: forest_nodes_def)
  with 2(2) have pn: "subtree_num_targets node \<noteq> 0" "package_num_targets node \<noteq> 0" by blast+
  from visit_positive_counts [OF pn, of ptt outs pit expand queue]
  consider (err) ls t where "visit ptt outs pit expand node queue = (ls, Inl (KeyError t))"
    | (go) ls queue' where "visit ptt outs pit expand node queue = (ls, Inr queue')"
        "queue' = queue \<or> queue' = sort_key package (children node) @ queue"
    by blast
  then show ?case
  proof cases
    case err
    then show ?thesis by simp
  next
    case go
    have "set (forest_nodes queue') \<subseteq> set (forest_nodes (node # queue))"
      using go(2) by (cases node) (auto simp: forest_nodes_def)
    with 2(2) have "\<forall>m \<in> set (forest_nodes queue'). subtree_num_targets m \<noteq> 0 \<and> package_num_targets m \<noteq> 0"
      by blast
    with 2(1) [OF go(1) [symmetric] refl]
    have ih: "snd (print_queue ptt outs pit expand queue') \<noteq> Some ZeroDivisionError" by simp
    obtain ls' e' where "print_queue ptt outs pit expand queue' = (ls', e')"
      by (cases "print_queue ptt outs pit expand queue'")
    with go(1) ih show ?thesis by simp
  qed
qed

lemma aggregated_direct_le:
  "aggregated tfp outs n \<Longrightarrow>
   package_num_targets n \<le> subtree_num_targets n \<and> package_num_successes n \<le> subtree_num_successes n"
  by (simp add: aggregated_def)

lemma nodes_subset_forest:
  "r \<in> set rs \<Longrightarrow> set (nodes r) \<subseteq> set (forest_nodes rs)"
  by (auto simp: forest_nodes_def)

text \<open>
  Claim C9. In a forest where the package of every node has at least one target, every
  node that the aggregation returns has a direct target count of at least 1, a subtree
  target count that is at least its direct target count and a subtree success count
  that is at least its direct success count; so neither quotient of the report has a
  zero divisor, and the report of a root never stops with a division by zero. The
  aggregation does return when every target has an outcome.
\<close>

theorem no_division_by_zero:
  assumes "\<forall>m \<in> set (forest_nodes roots). dd_get tfp (package m) \<noteq> []"
  shows "(\<forall>roots'. compute_forest tfp outs roots = Inr roots' \<longrightarrow>
            (\<forall>n \<in> set (forest_nodes roots').
                1 \<le> package_num_targets n
              \<and> package_num_targets n \<le> subtree_num_targets n
              \<and> package_num_successes n \<le> subtree_num_successes n
              \<and> true_div (subtree_num_successes n) (subtree_num_targets n) \<noteq> Inl ZeroDivisionError
              \<and> true_div (package_num_successes n) (package_num_targets n) \<noteq> Inl ZeroDivisionError)
          \<and> (\<forall>r \<in> set roots'.
                snd (print_forest r tfp outs print_individual_targets expand) \<noteq> Some ZeroDivisionError))
       \<and> ((\<forall>m \<in> set (forest_nodes roots). set (dd_get tfp (package m)) \<subseteq> set (map fst outs)) \<longrightarrow>
            (\<exists>roots'. compute_forest tfp outs roots = Inr roots'))"
proof (intro conjI allI impI)
  fix roots'
  assume r: "compute_forest tfp outs roots = Inr roots'"
  from compute_forest_aggregated [OF r]
  have a: "\<forall>m \<in> set (forest_nodes roots'). aggregated tfp outs m"
    and p: "map package (forest_nodes roots') = map package (forest_nodes roots)" by simp_all
  have pos: "1 \<le> package_num_targets n" if n: "n \<in> set (forest_nodes roots')" for n
  proof -
    from n have "package n \<in> set (map package (forest_nodes roots'))" by simp
    with p have "package n \<in> set (map package (forest_nodes roots))" by simp
    then obtain m where "m \<in> set (forest_nodes roots)" "package m = package n" by auto
    with assms have "dd_get tfp (package n) \<noteq> []" by metis
    moreover from a n have "package_num_targets n = length (dd_get tfp (package n))"
      by (simp add: aggregated_def)
    ultimately show ?thesis by (cases "dd_get tfp (package n)") simp_all
  qed
  show "\<forall>n \<in> set (forest_nodes roots').
                1 \<le> package_num_targets n
              \<and> package_num_targets n \<le> subtree_num_targets n
              \<and> package_num_successes n \<le> subtree_num_successes n
              \<and> true_div (subtree_num_successes n) (subtree_num_targets n) \<noteq> Inl ZeroDivisionError
              \<and> true_div (package_num_successes n) (package_num_targets n) \<noteq> Inl ZeroDivisionError"
  proof
    fix n assume n: "n \<in> set (forest_nodes roots')"
    from a n have "aggregated tfp outs n" by blast
    from aggregated_direct_le [OF this] pos [OF n]
    show "1 \<le> package_num_targets n
              \<and> package_num_targets n \<le> subtree_num_targets n
              \<and> package_num_successes n \<le> subtree_num_successes n
              \<and> true_div (subtree_num_successes n) (subtree_num_targets n) \<noteq> Inl ZeroDivisionError
              \<and> true_div (package_num_successes n) (package_num_targets n) \<noteq> Inl ZeroDivisionError"
      by (simp add: true_div_def)
  qed
  show "\<forall>r \<in> set roots'.
          snd (print_forest r tfp outs print_individual_targets expand) \<noteq> Some ZeroDivisionError"
  proof
    fix r assume r: "r \<in> set roots'"
    have "subtree_num_targets m \<noteq> 0 \<and> package_num_targets m \<noteq> 0" if "m \<in> set (forest_nodes [r])" for m
    proof -
      from that r have m: "m \<in> set (forest_nodes roots')"
        using nodes_subset_forest [OF r] by (auto simp: forest_nodes_def)
      with a have "aggregated tfp outs m" by blast
      from aggregated_direct_le [OF this] pos [OF m] show ?thesis by simp
    qed
    then show "snd (print_forest r tfp outs print_individual_targets expand) \<noteq> Some ZeroDivisionError"
      unfolding print_forest_def by (intro print_queue_no_zero_division) blast
  qed
next
  assume "\<forall>m \<in> set (forest_nodes roots). set (dd_get tfp (package m)) \<subseteq> set (map fst outs)"
  then show "\<exists>roots'. compute_forest tfp outs roots = Inr roots'"
    by (rule compute_forest_total)
qed

theorem no_division_by_zero_witness:
  "\<exists>roots'. compute_forest
       [(''//a'', [''//a:x'', ''//a:y'']), (''//a/b'', [''//a/b:z''])]
       [(''//a:x'', Some ''success''), (''//a:y'', None), (''//a/b:z'', Some ''success'')]
       [PackageTreeNode ''//a'' 0 [PackageTreeNode ''//a/b'' 1 [] 0 0 0 0] 0 0 0 0] = Inr roots'
     \<and> (\<forall>n \<in> set (forest_nodes roots').
            1 \<le> package_num_targets n
          \<and> package_num_targets n \<le> subtree_num_targets n
          \<and> package_num_successes n \<le> subtree_num_successes n
          \<and> true_div (subtree_num_successes n) (subtree_num_targets n) \<noteq> Inl ZeroDivisionError
          \<and> true_div (package_num_successes n) (package_num_targets n) \<noteq> Inl ZeroDivisionError)
     \<and> (\<forall>r \<in> set roots'.
            snd (print_forest r [(''//a'', [''//a:x'', ''//a:y'']), (''//a/b'', [''//a/b:z''])]
                   [(''//a:x'', Some ''success''), (''//a:y'', None), (''//a/b:z'', Some ''success'')]
                   False False) \<noteq> Some ZeroDivisionError)"
proof -
  have h1: "\<forall>m \<in> set (forest_nodes [PackageTreeNode ''//a'' 0 [PackageTreeNode ''//a/b'' 1 [] 0 0 0 0] 0 0 0 0]).
             dd_get [(''//a'', [''//a:x'', ''//a:y'']), (''//a/b'', [''//a/b:z''])] (package m) \<noteq> []"
    by (auto simp: forest_nodes_def dd_get_def)
  have h2: "\<forall>m \<in> set (forest_nodes [PackageTreeNode ''//a'' 0 [PackageTreeNode ''//a/b'' 1 [] 0 0 0 0] 0 0 0 0]).
             set (dd_get [(''//a'', [''//a:x'', ''//a:y'']), (''//a/b'', [''//a/b:z''])] (package m))
               \<subseteq> set (map fst [(''//a:x'', Some ''success''), (''//a:y'', None), (''//a/b:z'', Some ''success'')])"
    by (auto simp: forest_nodes_def dd_get_def)
  show ?thesis
    using no_division_by_zero [OF h1, of "[(''//a:x'', Some ''success''), (''//a:y'', None), (''//a/b:z'', Some ''success'')]" False False] h2
    by blast
qed

section \<open>A stream that configures no target\<close>

lemma overall_line_not_blank: "overall_line pct \<noteq> []"
  by (simp add: overall_line_def)

lemma report_empty: "report [] expand = ([''''], Some ZeroDivisionError)"
  by (simp add: report_def aggregate_def build_package_forest_def print_overall_def
      overall_percentage_def true_div_def count_success_values_def)

text \<open>
  Claim C10. When the stream has no \<^verbatim>\<open>targetConfigured\<close> record the program ends with
  an exception and prints no summary line; when such a stream is read without an
  exception the outcome dictionary is empty, the blank line is all that is printed, and
  the exception is the division by zero of the overall percentage.
\<close>

theorem empty_outcomes_divide_by_zero:
  assumes "configured_labels evs = []"
  shows "(\<exists>e. snd (main evs expand) = Some e)
       \<and> (\<forall>pct. overall_line pct \<notin> set (fst (main evs expand)))
       \<and> (\<forall>outs. read_build_event_protocol evs = Inr outs \<longrightarrow>
             outs = [] \<and> main evs expand = ([''''], Some ZeroDivisionError))"
proof (cases "read_build_event_protocol evs")
  case (Inl e)
  then show ?thesis by (simp add: main_def)
next
  case (Inr outs)
  then have "set (map fst outs) = {}"
    using read_events_keys [of "[]" evs outs] assms by (simp add: read_build_event_protocol_def)
  then have "outs = []" by simp
  with Inr show ?thesis
    by (simp add: main_def report_empty overall_line_not_blank)
qed

theorem empty_outcomes_divide_by_zero_witness:
  "main [] False = ([''''], Some ZeroDivisionError)
   \<and> main [\<lparr>id_keys = [(''progress'', None)], aborted = False, completed = None, event_str = ''{}''\<rparr>] True
       = ([''''], Some ZeroDivisionError)"
proof -
  have c1: "configured_labels [] = []"
    and c2: "configured_labels [\<lparr>id_keys = [(''progress'', None)], aborted = False, completed = None, event_str = ''{}''\<rparr>] = []"
    by (simp_all add: configured_labels_def)
  have r1: "read_build_event_protocol [] = Inr []"
    and r2: "read_build_event_protocol [\<lparr>id_keys = [(''progress'', None)], aborted = False, completed = None, event_str = ''{}''\<rparr>] = Inr []"
    by (simp_all add: read_build_event_protocol_def process_key_def)
  show ?thesis
    using empty_outcomes_divide_by_zero [OF c1, of False] empty_outcomes_divide_by_zero [OF c2, of True] r1 r2
    by simp
qed

section \<open>The turn of the report loop on a fully successful node\<close>

text \<open>
  In an aggregated tree whose root is fully successful every node is fully successful:
  the nodes that the loop leaves out below such a root would print nothing either when
  \<open>expand\<close> is false.
\<close>

lemma sum_list_eq_pointwise:
  "\<forall>c \<in> set cs. f c \<le> (g c :: nat) \<Longrightarrow> sum_list (map f cs) = sum_list (map g cs) \<Longrightarrow>
   \<forall>c \<in> set cs. f c = g c"
proof (induction cs)
  case Nil
  then show ?case by simp
next
  case (Cons c cs)
  then have le: "f c \<le> g c" and les: "\<forall>c \<in> set cs. f c \<le> g c" by simp_all
  from les have "sum_list (map f cs) \<le> sum_list (map g cs)" by (simp add: sum_list_mono)
  with le Cons.prems(2) have "f c = g c" and "sum_list (map f cs) = sum_list (map g cs)" by simp_all
  with Cons.IH [OF les] show ?case by simp
qed

lemma fully_successful_descendants:
  "\<forall>m \<in> set (nodes n). aggregated tfp outs m \<Longrightarrow>
   subtree_num_successes n = subtree_num_targets n \<Longrightarrow>
   \<forall>m \<in> set (nodes n). subtree_num_successes m = subtree_num_targets m"
proof (induction n)
  case (PackageTreeNode p d cs ps pt ss st)
  let ?n = "PackageTreeNode p d cs ps pt ss st"
  have sub: "\<forall>m \<in> set (nodes c). aggregated tfp outs m" if "c \<in> set cs" for c
    using that PackageTreeNode.prems(1) by auto
  have le: "\<forall>c \<in> set cs. subtree_num_successes c \<le> subtree_num_targets c"
    using sub aggregated_successes_le by blast
  then have les: "sum_list (map subtree_num_successes cs) \<le> sum_list (map subtree_num_targets cs)"
    by (simp add: sum_list_mono)
  from PackageTreeNode.prems(1) have a: "aggregated tfp outs ?n" by simp
  then have "ps \<le> pt"
    using count_successes_le [of outs "dd_get tfp p" ps] by (simp add: aggregated_def)
  with a les PackageTreeNode.prems(2)
  have "sum_list (map subtree_num_successes cs) = sum_list (map subtree_num_targets cs)"
    by (simp add: aggregated_def)
  with le have "\<forall>c \<in> set cs. subtree_num_successes c = subtree_num_targets c"
    by (rule sum_list_eq_pointwise)
  with PackageTreeNode.IH sub
  have "\<forall>c \<in> set cs. \<forall>m \<in> set (nodes c). subtree_num_successes m = subtree_num_targets m"
    by blast
  with PackageTreeNode.prems(2) show ?case by auto
qed

text \<open>
  Claim C2, as the program has it. For a node whose subtree success fraction is 1: when
  \<open>expand\<close> is false the turn prints nothing and leaves the queue as it was, so the
  children of the node are not put on the queue and the loop goes on with the rest of
  the queue; when \<open>expand\<close> is true (and the node has a direct target) the first line
  of the turn is the line of the node, and unless a target has no outcome the children,
  sorted by key, are put in front of the queue.
\<close>

theorem fully_successful_node_folded:
  assumes "true_div (subtree_num_successes node) (subtree_num_targets node) = Inr 1"
  shows "(\<not> expand \<longrightarrow>
            visit ptt outs pit expand node queue = ([], Inr queue)
          \<and> print_queue ptt outs pit expand (node # queue) = print_queue ptt outs pit expand queue)
       \<and> (expand \<and> package_num_targets node \<noteq> 0 \<longrightarrow>
            (\<exists>ls r. visit ptt outs pit expand node queue
                      = (package_line node (of_nat (package_num_successes node) / of_nat (package_num_targets node)) # ls, r)
                  \<and> (r = Inr (sort_key package (children node) @ queue) \<or> (\<exists>t. r = Inl (KeyError t)))))"
proof (intro conjI impI)
  assume ne: "\<not> expand"
  with assms show v: "visit ptt outs pit expand node queue = ([], Inr queue)"
    by (simp add: visit_def)
  obtain ls e where "print_queue ptt outs pit expand queue = (ls, e)"
    by (cases "print_queue ptt outs pit expand queue")
  with v show "print_queue ptt outs pit expand (node # queue) = print_queue ptt outs pit expand queue"
    by simp
next
  assume e: "expand \<and> package_num_targets node \<noteq> 0"
  obtain ls err where p: "print_targets outs expand node (dd_get ptt (package node)) = (ls, err)"
    by (cases "print_targets outs expand node (dd_get ptt (package node))")
  show "\<exists>ls r. visit ptt outs pit expand node queue
                      = (package_line node (of_nat (package_num_successes node) / of_nat (package_num_targets node)) # ls, r)
                  \<and> (r = Inr (sort_key package (children node) @ queue) \<or> (\<exists>t. r = Inl (KeyError t)))"
  proof (cases err)
    case None
    with p e assms show ?thesis by (auto simp: visit_def true_div_def)
  next
    case (Some x)
    with p print_targets_error [of outs expand node "dd_get ptt (package node)" x]
    obtain t where "x = KeyError t" by auto
    with p Some e assms show ?thesis by (auto simp: visit_def true_div_def)
  qed
qed

theorem fully_successful_node_folded_witness:
  "visit [] [] False False
      (PackageTreeNode ''//a'' 0 [PackageTreeNode ''//a/b'' 1 [] 1 1 1 1] 2 2 3 3) []
     = ([], Inr [])
   \<and> (\<exists>ls r. visit [] [] False True
      (PackageTreeNode ''//a'' 0 [PackageTreeNode ''//a/b'' 1 [] 1 1 1 1] 2 2 3 3) []
     = (package_line (PackageTreeNode ''//a'' 0 [PackageTreeNode ''//a/b'' 1 [] 1 1 1 1] 2 2 3 3) 1 # ls, r)
     \<and> r = Inr [PackageTreeNode ''//a/b'' 1 [] 1 1 1 1])"
proof -
  have h: "true_div (subtree_num_successes (PackageTreeNode ''//a'' 0 [PackageTreeNode ''//a/b'' 1 [] 1 1 1 1] 2 2 3 3))
             (subtree_num_targets (PackageTreeNode ''//a'' 0 [PackageTreeNode ''//a/b'' 1 [] 1 1 1 1] 2 2 3 3)) = Inr 1"
    by (simp add: true_div_def)
  have v: "snd (visit [] [] False True
      (PackageTreeNode ''//a'' 0 [PackageTreeNode ''//a/b'' 1 [] 1 1 1 1] 2 2 3 3) [])
     = Inr [PackageTreeNode ''//a/b'' 1 [] 1 1 1 1]"
    by (simp add: visit_def true_div_def)
  show ?thesis
    using fully_successful_node_folded [OF h, of False "[]" "[]" False "[]"]
      fully_successful_node_folded [OF h, of True "[]" "[]" False "[]"] v
    by auto
qed

text \<open>
  Claim C2 as the specification states it fails: the node \<^verbatim>\<open>//a\<close> below is fully
  successful and has a child, and with \<open>expand\<close> false its turn leaves the queue
  empty, so the child is never visited.
\<close>

theorem skipped_node_children_not_traversed_counterexample:
  "true_div (subtree_num_successes (PackageTreeNode ''//a'' 0 [PackageTreeNode ''//a/b'' 1 [] 1 1 1 1] 2 2 3 3))
     (subtree_num_targets (PackageTreeNode ''//a'' 0 [PackageTreeNode ''//a/b'' 1 [] 1 1 1 1] 2 2 3 3)) = Inr 1
   \<and> children (PackageTreeNode ''//a'' 0 [PackageTreeNode ''//a/b'' 1 [] 1 1 1 1] 2 2 3 3)
       = [PackageTreeNode ''//a/b'' 1 [] 1 1 1 1]
   \<and> visit [(''//a'', [''//a:x'', ''//a:y'']), (''//a/b'', [''//a/b:z''])]
        [(''//a:x'', Some ''success''), (''//a:y'', Some ''success''), (''//a/b:z'', Some ''success'')]
        False False
        (PackageTreeNode ''//a'' 0 [PackageTreeNode ''//a/b'' 1 [] 1 1 1 1] 2 2 3 3) []
       = ([], Inr [])"
  by (simp add: true_div_def visit_def)

section \<open>Targets of a single package\<close>

text \<open>
  Claim C1 at the stream of the specification's own example: the package \<^verbatim>\<open>//a\<close> with
  the target \<^verbatim>\<open>//a:x\<close> built and the target \<^verbatim>\<open>//a:y\<close> failed with the message
  \<^verbatim>\<open>boom\<close>. With \<open>expand\<close> false the report is the line of the package and the
  summary: the failed target has no line of its own.
\<close>

theorem failing_target_hidden_without_expand:
  "main [target_configured ''//a:x'', target_configured ''//a:y'',
         target_completed ''//a:x'' succeeded, target_completed ''//a:y'' (failed ''boom'')] False
     = (['''', [CHR 0xE2, CHR 0x94, CHR 0x9C] @ ''Package //a:all build percentage: 50.0% (1/2)'',
         [], ''Overall build percent: 50.00%''], None)"
  by code_simp

text \<open>With \<open>expand\<close> true both targets are listed.\<close>

lemma failing_target_shown_with_expand:
  "main [target_configured ''//a:x'', target_configured ''//a:y'',
         target_completed ''//a:x'' succeeded, target_completed ''//a:y'' (failed ''boom'')] True
     = (['''', [CHR 0xE2, CHR 0x94, CHR 0x9C] @ ''Package //a:all build percentage: 50.0% (1/2)'',
         '' '' @ [CHR 0xE2, CHR 0x94, CHR 0x9C] @ ''Target //a:x : success'',
         '' '' @ [CHR 0xE2, CHR 0x94, CHR 0x9C] @ ''Target //a:y : boom'',
         [], ''Overall build percent: 50.00%''], None)"
  by code_simp

section \<open>The forest of packages is valid\<close>

lemma prefix_le: "prefix xs ys \<Longrightarrow> xs \<le> (ys :: 'a :: linorder list)"
proof (induction xs arbitrary: ys)
  case Nil
  then show ?case by simp
next
  case (Cons x xs)
  from Cons.prems obtain zs where "ys = x # zs" "prefix xs zs" by (cases ys) auto
  with Cons.IH show ?case by simp
qed

lemma less_not_prefix: "k < (n :: string) \<Longrightarrow> \<not> prefix n k"
  using prefix_le [of n k] by auto

lemma unrelated_keys_snoc:
  "unrelated_keys (ks @ [k]) \<longleftrightarrow>
     unrelated_keys ks \<and> (\<forall>k' \<in> set ks. \<not> prefix k' k \<and> \<not> prefix k k')"
  by (induction ks) auto

lemma package_set_depth [simp]: "package (set_depth d n) = package n"
  by (cases n) simp

lemma children_set_depth [simp]: "children (set_depth d n) = children n"
  by (cases n) simp

lemma depth_set_depth [simp]: "depth (set_depth d n) = d"
  by (cases n) simp

lemma package_insert [simp]: "package (insert_node_into_tree t node) = package t"
  by (cases t) (simp split: option.splits)

lemma first_match_packages:
  "first_match_insert cs node = Some cs' \<Longrightarrow> map package cs' = map package cs"
  by (induction cs arbitrary: cs') (auto split: if_splits)

lemma first_match_none:
  "first_match_insert cs node = None \<Longrightarrow> \<forall>c \<in> set cs. \<not> prefix (package c) (package node)"
  by (induction cs) (auto split: if_splits)

lemma valid_tree_leaf:
  "children node = [] \<Longrightarrow> \<forall>a \<in> set anc. strict_prefix a (package node) \<Longrightarrow>
   valid_tree anc (set_depth (length anc) node)"
  by (cases node) (simp add: siblings_unrelated_def)

lemma nodes_self: "n \<in> set (nodes n)"
  by (cases n) simp

lemma child_in_forest_nodes: "c \<in> set cs \<Longrightarrow> c \<in> set (forest_nodes cs)"
  using nodes_self by (auto simp: forest_nodes_def)

lemma insert_valid:
  "(\<forall>anc. valid_tree anc t \<and> children node = []
      \<and> (\<forall>a \<in> set anc. strict_prefix a (package node))
      \<and> strict_prefix (package t) (package node)
      \<and> (\<forall>m \<in> set (nodes t). package m < package node)
      \<longrightarrow> valid_tree anc (insert_node_into_tree t node))"
  "(\<forall>anc cs'. (\<forall>c \<in> set cs. valid_tree anc c) \<and> children node = []
      \<and> (\<forall>a \<in> set anc. strict_prefix a (package node))
      \<and> (\<forall>m \<in> set (forest_nodes cs). package m < package node)
      \<and> first_match_insert cs node = Some cs'
      \<longrightarrow> (\<forall>c \<in> set cs'. valid_tree anc c))"
proof (induction t node and cs node rule: insert_node_into_tree_first_match_insert.induct)
  case (1 p d cs ps pt ss st node)
  show ?case
  proof (intro allI impI)
    fix anc
    assume a: "valid_tree anc (PackageTreeNode p d cs ps pt ss st) \<and> children node = []
      \<and> (\<forall>a \<in> set anc. strict_prefix a (package node))
      \<and> strict_prefix (package (PackageTreeNode p d cs ps pt ss st)) (package node)
      \<and> (\<forall>m \<in> set (nodes (PackageTreeNode p d cs ps pt ss st)). package m < package node)"
    then have d: "d = length anc" and anc: "\<forall>a \<in> set anc. strict_prefix a p"
      and sib: "siblings_unrelated cs" and kids: "\<forall>c \<in> set cs. valid_tree (anc @ [p]) c"
      and leaf: "children node = []"
      and anc': "\<forall>a \<in> set (anc @ [p]). strict_prefix a (package node)"
      and below: "\<forall>m \<in> set (forest_nodes cs). package m < package node"
      by (auto simp: forest_nodes_def)
    show "valid_tree anc (insert_node_into_tree (PackageTreeNode p d cs ps pt ss st) node)"
    proof (cases "first_match_insert cs node")
      case None
      have "\<forall>c \<in> set cs. \<not> prefix (package c) (package node) \<and> \<not> prefix (package node) (package c)"
        using first_match_none [OF None] below child_in_forest_nodes less_not_prefix by blast
      then have "siblings_unrelated (cs @ [set_depth (d + 1) node])"
        using sib by (auto simp: siblings_unrelated_def unrelated_keys_snoc)
      moreover have "valid_tree (anc @ [p]) (set_depth (d + 1) node)"
        using valid_tree_leaf [OF leaf anc'] d by simp
      ultimately show ?thesis
        using None d anc kids by simp
    next
      case (Some cs')
      have "siblings_unrelated cs'"
        using first_match_packages [OF Some] sib by (simp add: siblings_unrelated_def)
      moreover have "\<forall>c \<in> set cs'. valid_tree (anc @ [p]) c"
        using 1 kids leaf anc' below Some by blast
      ultimately show ?thesis
        using Some d anc by simp
    qed
  qed
next
  case (2 node)
  then show ?case by simp
next
  case (3 child rest node)
  show ?case
  proof (intro allI impI)
    fix anc cs'
    assume a: "(\<forall>c \<in> set (child # rest). valid_tree anc c) \<and> children node = []
      \<and> (\<forall>a \<in> set anc. strict_prefix a (package node))
      \<and> (\<forall>m \<in> set (forest_nodes (child # rest)). package m < package node)
      \<and> first_match_insert (child # rest) node = Some cs'"
    then have vc: "valid_tree anc child" and vr: "\<forall>c \<in> set rest. valid_tree anc c"
      and leaf: "children node = []" and anc: "\<forall>a \<in> set anc. strict_prefix a (package node)"
      and bc: "\<forall>m \<in> set (nodes child). package m < package node"
      and br: "\<forall>m \<in> set (forest_nodes rest). package m < package node"
      and f: "first_match_insert (child # rest) node = Some cs'"
      by (auto simp: forest_nodes_def)
    show "\<forall>c \<in> set cs'. valid_tree anc c"
    proof (cases "prefix (package child) (package node)")
      case True
      from bc nodes_self have "package child < package node" by blast
      with True have "strict_prefix (package child) (package node)" by (simp add: strict_prefix_def)
      with 3(1) [OF True] vc leaf anc bc have "valid_tree anc (insert_node_into_tree child node)"
        by blast
      moreover from f True have "cs' = insert_node_into_tree child node # rest" by simp
      ultimately show ?thesis using vr by simp
    next
      case False
      with f obtain r' where r': "first_match_insert rest node = Some r'" and cs': "cs' = child # r'"
        by auto
      from 3(2) [OF False] vr leaf anc br r' have "\<forall>c \<in> set r'. valid_tree anc c" by blast
      with vc cs' show ?thesis by simp
    qed
  qed
qed


lemma nodes_leaf: "children node = [] \<Longrightarrow> nodes (set_depth d node) = [set_depth d node]"
  by (cases node) simp

lemma insert_packages:
  "children node = [] \<longrightarrow>
     mset (map package (nodes (insert_node_into_tree t node)))
       = add_mset (package node) (mset (map package (nodes t)))"
  "(\<forall>cs'. children node = [] \<and> first_match_insert cs node = Some cs' \<longrightarrow>
     mset (map package (forest_nodes cs'))
       = add_mset (package node) (mset (map package (forest_nodes cs))))"
proof (induction t node and cs node rule: insert_node_into_tree_first_match_insert.induct)
  case (1 p d cs ps pt ss st node)
  show ?case
  proof
    assume leaf: "children node = []"
    show "mset (map package (nodes (insert_node_into_tree (PackageTreeNode p d cs ps pt ss st) node)))
       = add_mset (package node) (mset (map package (nodes (PackageTreeNode p d cs ps pt ss st))))"
    proof (cases "first_match_insert cs node")
      case None
      then show ?thesis
        using nodes_leaf [OF leaf, of "d + 1"] by simp
    next
      case (Some cs')
      with 1 leaf have "mset (map package (forest_nodes cs'))
          = add_mset (package node) (mset (map package (forest_nodes cs)))" by blast
      with Some show ?thesis by (simp add: forest_nodes_def)
    qed
  qed
next
  case (2 node)
  then show ?case by simp
next
  case (3 child rest node)
  show ?case
  proof (intro allI impI)
    fix cs'
    assume a: "children node = [] \<and> first_match_insert (child # rest) node = Some cs'"
    show "mset (map package (forest_nodes cs'))
       = add_mset (package node) (mset (map package (forest_nodes (child # rest))))"
    proof (cases "prefix (package child) (package node)")
      case True
      with a have "cs' = insert_node_into_tree child node # rest" by simp
      with 3(1) [OF True] a show ?thesis by (simp add: forest_nodes_def)
    next
      case False
      with a obtain r' where r': "first_match_insert rest node = Some r'" and cs': "cs' = child # r'"
        by auto
      from 3(2) [OF False] a r' have "mset (map package (forest_nodes r'))
          = add_mset (package node) (mset (map package (forest_nodes rest)))" by blast
      with cs' show ?thesis by (simp add: forest_nodes_def)
    qed
  qed
qed

lemma insert_node_into_forest_packages:
  assumes "children node = []"
  shows "mset (map package (forest_nodes (insert_node_into_forest roots node)))
           = add_mset (package node) (mset (map package (forest_nodes roots)))"
proof (cases "first_match_insert roots node")
  case None
  then show ?thesis
    using nodes_leaf [OF assms, of 0] by (simp add: insert_node_into_forest_def forest_nodes_def)
next
  case (Some roots')
  with insert_packages(2) [of node roots] assms show ?thesis
    by (simp add: insert_node_into_forest_def)
qed

lemma insert_node_into_forest_valid:
  assumes v: "valid_forest roots" and leaf: "children node = []"
    and below: "\<forall>m \<in> set (forest_nodes roots). package m < package node"
  shows "valid_forest (insert_node_into_forest roots node)"
proof (cases "first_match_insert roots node")
  case None
  have "\<forall>c \<in> set roots. \<not> prefix (package c) (package node) \<and> \<not> prefix (package node) (package c)"
    using first_match_none [OF None] below child_in_forest_nodes less_not_prefix by blast
  then have "siblings_unrelated (roots @ [set_depth 0 node])"
    using v by (auto simp: valid_forest_def siblings_unrelated_def unrelated_keys_snoc)
  moreover have "valid_tree [] (set_depth 0 node)"
    using valid_tree_leaf [OF leaf, of "[]"] by simp
  ultimately show ?thesis
    using None v by (simp add: insert_node_into_forest_def valid_forest_def)
next
  case (Some roots')
  have "siblings_unrelated roots'"
    using first_match_packages [OF Some] v by (simp add: valid_forest_def siblings_unrelated_def)
  moreover have "\<forall>c \<in> set roots'. valid_tree [] c"
    using insert_valid(2) [of roots node] v leaf below Some
    by (simp add: valid_forest_def)
  ultimately show ?thesis
    using Some by (simp add: insert_node_into_forest_def valid_forest_def)
qed

lemma build_package_forest_snoc:
  "build_package_forest (ks @ [k]) = insert_node_into_forest (build_package_forest ks) (new_node k)"
  by (simp add: build_package_forest_def)

lemma build_package_forest_packages:
  "mset (map package (forest_nodes (build_package_forest ks))) = mset ks"
proof (induction ks rule: rev_induct)
  case Nil
  then show ?case by (simp add: build_package_forest_def forest_nodes_def)
next
  case (snoc k ks)
  have "children (new_node k) = []" by (simp add: new_node_def)
  from insert_node_into_forest_packages [OF this, of "build_package_forest ks"] snoc
  show ?case by (simp add: build_package_forest_snoc new_node_def)
qed

text \<open>
  Claim C5. For every list of distinct package keys in ascending order the forest that
  greedy first-match insertion builds is valid: every node has the depth of its chain of
  ancestors, its key starts with the key of its parent (and of every ancestor) and
  differs from them, and no two siblings, roots included, are in a prefix relation.
  Every key of the list is the key of exactly one node.
\<close>

theorem build_package_forest_valid:
  assumes "sorted package_lst" and "distinct package_lst"
  shows "valid_forest (build_package_forest package_lst)
       \<and> mset (map package (forest_nodes (build_package_forest package_lst))) = mset package_lst"
proof -
  have "valid_forest (build_package_forest package_lst)"
    using assms
  proof (induction package_lst rule: rev_induct)
    case Nil
    then show ?case
      by (simp add: build_package_forest_def valid_forest_def siblings_unrelated_def)
  next
    case (snoc k ks)
    then have v: "valid_forest (build_package_forest ks)"
      by (simp add: sorted_append)
    have "\<forall>k' \<in> set ks. k' < k"
      using snoc.prems by (auto simp: sorted_append less_le)
    moreover have "set (map package (forest_nodes (build_package_forest ks))) = set ks"
      using build_package_forest_packages [of ks] by (metis set_mset_mset)
    ultimately have below: "\<forall>m \<in> set (forest_nodes (build_package_forest ks)). package m < package (new_node k)"
      by (auto simp: new_node_def)
    have "children (new_node k) = []" by (simp add: new_node_def)
    from insert_node_into_forest_valid [OF v this below] show ?case
      by (simp add: build_package_forest_snoc)
  qed
  with build_package_forest_packages [of package_lst] show ?thesis by blast
qed


theorem build_package_forest_valid_witness:
  "sorted [''//a'', ''//a/b'', ''//a/b/c'', ''//ab'', ''//c'']
   \<and> distinct [''//a'', ''//a/b'', ''//a/b/c'', ''//ab'', ''//c'']
   \<and> valid_forest (build_package_forest [''//a'', ''//a/b'', ''//a/b/c'', ''//ab'', ''//c''])
   \<and> build_package_forest [''//a'', ''//a/b'', ''//a/b/c'', ''//ab'', ''//c'']
       = [PackageTreeNode ''//a'' 0
            [PackageTreeNode ''//a/b'' 1 [PackageTreeNode ''//a/b/c'' 2 [] 0 0 0 0] 0 0 0 0,
             PackageTreeNode ''//ab'' 1 [] 0 0 0 0] 0 0 0 0,
          PackageTreeNode ''//c'' 0 [] 0 0 0 0]"
proof -
  have s: "sorted [''//a'', ''//a/b'', ''//a/b/c'', ''//ab'', ''//c'']" by simp
  have d: "distinct [''//a'', ''//a/b'', ''//a/b/c'', ''//ab'', ''//c'']" by simp
  have b: "build_package_forest [''//a'', ''//a/b'', ''//a/b/c'', ''//ab'', ''//c'']
       = [PackageTreeNode ''//a'' 0
            [PackageTreeNode ''//a/b'' 1 [PackageTreeNode ''//a/b/c'' 2 [] 0 0 0 0] 0 0 0 0,
             PackageTreeNode ''//ab'' 1 [] 0 0 0 0] 0 0 0 0,
          PackageTreeNode ''//c'' 0 [] 0 0 0 0]"
    by (simp add: build_package_forest_def insert_node_into_forest_def new_node_def)
  from build_package_forest_valid [OF s d] s d b show ?thesis by simp
qed

section \<open>The overall percentage\<close>

subsection \<open>Grouping the targets by package\<close>























subsection \<open>Two decimals\<close>













end
